theory Spec2Isabelle
  imports Complex_Main "HOL-Library.Word" "HOL-Library.AList"
begin

section \<open>Strings of UTF-16 code units\<close>

text \<open>
  A JavaScript string is a sequence of 16-bit code units. Both regular expressions of
  \<^verbatim>\<open>json-extractor-server.js\<close> are written without the \<^verbatim>\<open>u\<close> flag, so they match code
  unit by code unit, and \<^verbatim>\<open>JSON.parse\<close> reads code units as well.
\<close>

type_synonym code_unit = "16 word"
type_synonym jsstring = "code_unit list"

definition cu :: "char \<Rightarrow> code_unit" where
  "cu c = of_nat (of_char c)"

definition js :: "string \<Rightarrow> jsstring" where
  "js s = map cu s"

abbreviation LBRACE :: code_unit where "LBRACE \<equiv> 0x7B"
abbreviation RBRACE :: code_unit where "RBRACE \<equiv> 0x7D"
abbreviation LBRACKET :: code_unit where "LBRACKET \<equiv> 0x5B"
abbreviation RBRACKET :: code_unit where "RBRACKET \<equiv> 0x5D"
abbreviation BACKTICK :: code_unit where "BACKTICK \<equiv> 0x60"
abbreviation DQUOTE :: code_unit where "DQUOTE \<equiv> 0x22"
abbreviation BACKSLASH :: code_unit where "BACKSLASH \<equiv> 0x5C"
abbreviation COMMA :: code_unit where "COMMA \<equiv> 0x2C"
abbreviation COLON :: code_unit where "COLON \<equiv> 0x3A"
abbreviation NEWLINE :: code_unit where "NEWLINE \<equiv> 0x0A"

section \<open>Regular expressions with backtracking\<close>

text \<open>
  The fragment of ECMAScript patterns that the two literals of \<^verbatim>\<open>extractJson\<close> use:
  pattern characters, character classes, concatenation, the greedy quantifiers
  \<^verbatim>\<open>?\<close> and \<^verbatim>\<open>*\<close>, the lazy quantifier \<^verbatim>\<open>*?\<close> and one capturing group. A non-capturing
  group \<^verbatim>\<open>(?:r)\<close> is \<open>r\<close> itself.
\<close>

datatype regex =
    Eps
  | Chr code_unit
  | Cls "code_unit \<Rightarrow> bool"
  | Seq regex regex
  | Opt regex
  | Star regex
  | LazyStar regex
  | Group regex

text \<open>
  A matcher state is the input still to be read and the text captured by group 1 so far.
  \<open>m r st\<close> lists the states in which a match of \<open>r\<close> from \<open>st\<close> can end, in the order in
  which the backtracking matcher of ECMAScript tries them: a greedy quantifier tries one
  more iteration before it tries to stop, a lazy one tries to stop first. An iteration
  that consumes nothing is rejected, as in ECMAScript's RepeatMatcher.
\<close>

type_synonym mstate = "jsstring \<times> jsstring option"

function m :: "regex \<Rightarrow> mstate \<Rightarrow> mstate list" where
  "m Eps st = [st]"
| "m (Chr c) (s, cap) = (case s of [] \<Rightarrow> [] | x # xs \<Rightarrow> if x = c then [(xs, cap)] else [])"
| "m (Cls p) (s, cap) = (case s of [] \<Rightarrow> [] | x # xs \<Rightarrow> if p x then [(xs, cap)] else [])"
| "m (Seq r1 r2) st = concat (map (m r2) (m r1 st))"
| "m (Opt r) st =
     filter (\<lambda>st'. length (fst st') < length (fst st)) (m r st) @ [st]"
| "m (Star r) st =
     concat (map (\<lambda>st'. if length (fst st') < length (fst st) then m (Star r) st' else [])
                 (m r st)) @ [st]"
| "m (LazyStar r) st =
     st # concat (map (\<lambda>st'. if length (fst st') < length (fst st) then m (LazyStar r) st' else [])
                      (m r st))"
| "m (Group r) (s, cap) =
     map (\<lambda>(s', c'). (s', Some (take (length s - length s') s))) (m r (s, cap))"
  by pat_completeness auto
termination
  by (relation "inv_image (less_than <*lex*> less_than) (\<lambda>(r, st). (size r, length (fst st)))")
     auto

text \<open>
  \<^verbatim>\<open>text.match(re)\<close> for a pattern without the \<^verbatim>\<open>g\<close> flag: the match is tried at index 0,
  then 1, and so on up to the end of the text; the first index with a match wins and the
  first alternative of the backtracking order is taken there. The result is \<^verbatim>\<open>null\<close>
  (\<open>None\<close>) or the array of the whole match \<^verbatim>\<open>match[0]\<close> and the group \<^verbatim>\<open>match[1]\<close>
  (\<open>None\<close> is \<^verbatim>\<open>undefined\<close>).
\<close>

fun string_match :: "jsstring \<Rightarrow> regex \<Rightarrow> (jsstring \<times> jsstring option) option" where
  "string_match [] r =
     (case m r ([], None) of [] \<Rightarrow> None | (s', cap) # _ \<Rightarrow> Some ([], cap))"
| "string_match (x # xs) r =
     (case m r (x # xs, None) of
        [] \<Rightarrow> string_match xs r
      | (s', cap) # _ \<Rightarrow> Some (take (length (x # xs) - length s') (x # xs), cap))"

text \<open>The class \<^verbatim>\<open>\s\<close>: WhiteSpace and LineTerminator of ECMAScript.\<close>

definition is_space :: "code_unit \<Rightarrow> bool" where
  "is_space c \<longleftrightarrow>
     c = 0x09 \<or> c = 0x0A \<or> c = 0x0B \<or> c = 0x0C \<or> c = 0x0D \<or> c = 0x20 \<or> c = 0xA0 \<or>
     c = 0x1680 \<or> (0x2000 \<le> c \<and> c \<le> 0x200A) \<or> c = 0x2028 \<or> c = 0x2029 \<or>
     c = 0x202F \<or> c = 0x205F \<or> c = 0x3000 \<or> c = 0xFEFF"

definition seqs :: "regex list \<Rightarrow> regex" where
  "seqs rs = foldr Seq rs Eps"

definition str :: "jsstring \<Rightarrow> regex" where
  "str s = seqs (map Chr s)"

text \<open>Line 22: \<^verbatim>\<open>/```(?:json)?\s*(\{[\s\S]*?\})\s*```/\<close>\<close>

definition jsonRegex :: regex where
  "jsonRegex =
     seqs [str (js ''```''), Opt (str (js ''json'')), Star (Cls is_space),
           Group (seqs [Chr LBRACE, LazyStar (Cls (\<lambda>c. is_space c \<or> \<not> is_space c)), Chr RBRACE]),
           Star (Cls is_space), str (js ''```'')]"

text \<open>Line 33: \<^verbatim>\<open>/(\{[\s\S]*\})/\<close>\<close>

definition fallbackRegex :: regex where
  "fallbackRegex =
     Group (seqs [Chr LBRACE, Star (Cls (\<lambda>c. is_space c \<or> \<not> is_space c)), Chr RBRACE])"

section \<open>JSON values and \<^verbatim>\<open>JSON.parse\<close>\<close>

text \<open>
  The values \<^verbatim>\<open>JSON.parse\<close> can return. A number is kept as the mathematical value of its
  literal; the rounding of that value to a binary64 float is not modelled. An object is
  the list of its properties in creation order.
\<close>

datatype json =
    JNull
  | JBool bool
  | JNumber rat
  | JString jsstring
  | JArray "json list"
  | JObject "(jsstring \<times> json) list"

datatype exn = SyntaxError

definition is_json_ws :: "code_unit \<Rightarrow> bool" where
  "is_json_ws c \<longleftrightarrow> c = 0x09 \<or> c = 0x0A \<or> c = 0x0D \<or> c = 0x20"

definition skip_ws :: "jsstring \<Rightarrow> jsstring" where
  "skip_ws s = dropWhile is_json_ws s"

definition is_digit :: "code_unit \<Rightarrow> bool" where
  "is_digit c \<longleftrightarrow> 0x30 \<le> c \<and> c \<le> 0x39"

definition digit_val :: "code_unit \<Rightarrow> nat" where
  "digit_val c = unat c - 48"

definition digits_val :: "jsstring \<Rightarrow> nat" where
  "digits_val ds = foldl (\<lambda>a d. 10 * a + digit_val d) 0 ds"

definition hex_val :: "code_unit \<Rightarrow> nat option" where
  "hex_val c =
     (if is_digit c then Some (unat c - 48)
      else if 0x41 \<le> c \<and> c \<le> 0x46 then Some (unat c - 55)
      else if 0x61 \<le> c \<and> c \<le> 0x66 then Some (unat c - 87)
      else None)"

fun hex4 :: "jsstring \<Rightarrow> code_unit option" where
  "hex4 [a, b, c, d] =
     (case (hex_val a, hex_val b, hex_val c, hex_val d) of
        (Some h1, Some h2, Some h3, Some h4) \<Rightarrow> Some (of_nat (((h1 * 16 + h2) * 16 + h3) * 16 + h4))
      | _ \<Rightarrow> None)"
| "hex4 _ = None"

text \<open>The one-character escapes \<^verbatim>\<open>\" \\ \/ \b \f \n \r \t\<close>.\<close>

definition escape :: "code_unit \<Rightarrow> code_unit option" where
  "escape e =
     (if e = DQUOTE then Some DQUOTE
      else if e = BACKSLASH then Some BACKSLASH
      else if e = 0x2F then Some 0x2F
      else if e = 0x62 then Some 0x08
      else if e = 0x66 then Some 0x0C
      else if e = 0x6E then Some 0x0A
      else if e = 0x72 then Some 0x0D
      else if e = 0x74 then Some 0x09
      else None)"

text \<open>
  The characters of a string literal after its opening quote, up to the closing quote:
  the string's value and the input left. Control characters below U+0020 are refused.
\<close>

function parse_chars :: "jsstring \<Rightarrow> (jsstring \<times> jsstring) option" where
  "parse_chars [] = None"
| "parse_chars (c # s) =
     (if c = DQUOTE then Some ([], s)
      else if c = BACKSLASH then
        (case s of
           [] \<Rightarrow> None
         | e # s' \<Rightarrow>
             if e = 0x75 then
               (case hex4 (take 4 s') of
                  None \<Rightarrow> None
                | Some h \<Rightarrow> map_option (\<lambda>(v, r). (h # v, r)) (parse_chars (drop 4 s')))
             else
               (case escape e of
                  None \<Rightarrow> None
                | Some x \<Rightarrow> map_option (\<lambda>(v, r). (x # v, r)) (parse_chars s')))
      else if c < 0x20 then None
      else map_option (\<lambda>(v, r). (c # v, r)) (parse_chars s))"
  by pat_completeness auto
termination
  by (relation "measure length") auto

text \<open>
  A number literal \<^verbatim>\<open>-? (0 | [1-9][0-9]*) (. [0-9]+)? ([eE] [+-]? [0-9]+)?\<close> and its value.
\<close>

definition number_value :: "bool \<Rightarrow> jsstring \<Rightarrow> jsstring \<Rightarrow> int \<Rightarrow> rat" where
  "number_value neg ip fp e =
     (let mant = int (digits_val (ip @ fp));
          e10 = e - int (length fp);
          v = (if 0 \<le> e10 then of_int (mant * 10 ^ nat e10)
               else of_int mant / of_int (10 ^ nat (- e10)))
      in if neg then - v else v)"

definition parse_frac :: "jsstring \<Rightarrow> (jsstring \<times> jsstring) option" where
  "parse_frac s =
     (case s of
        [] \<Rightarrow> Some ([], s)
      | c # r \<Rightarrow>
          if c = 0x2E then
            (let ds = takeWhile is_digit r
             in if ds = [] then None else Some (ds, drop (length ds) r))
          else Some ([], s))"

definition parse_exp :: "jsstring \<Rightarrow> (int \<times> jsstring) option" where
  "parse_exp s =
     (case s of
        [] \<Rightarrow> Some (0, s)
      | c # r \<Rightarrow>
          if c = 0x65 \<or> c = 0x45 then
            (let (eneg, r1) =
                   (case r of
                      [] \<Rightarrow> (False, r)
                    | g # r' \<Rightarrow> if g = 0x2D then (True, r') else if g = 0x2B then (False, r')
                               else (False, r));
                 ds = takeWhile is_digit r1
             in if ds = [] then None
                else Some (if eneg then - int (digits_val ds) else int (digits_val ds),
                           drop (length ds) r1))
          else Some (0, s))"

definition parse_number :: "jsstring \<Rightarrow> (json \<times> jsstring) option" where
  "parse_number s =
     (let (neg, s1) = (case s of [] \<Rightarrow> (False, s) | c # r \<Rightarrow> if c = 0x2D then (True, r) else (False, s));
          ip = (case s1 of [] \<Rightarrow> [] | c # r \<Rightarrow> if c = 0x30 then [c] else takeWhile is_digit s1);
          s2 = drop (length ip) s1
      in if ip = [] then None
         else (case parse_frac s2 of
                 None \<Rightarrow> None
               | Some (fp, s3) \<Rightarrow>
                   (case parse_exp s3 of
                      None \<Rightarrow> None
                    | Some (e, s4) \<Rightarrow> Some (JNumber (number_value neg ip fp e), s4))))"

lemma parse_chars_shorter: "parse_chars s = Some (v, r) \<Longrightarrow> length r < length s"
proof (induction s arbitrary: v r rule: parse_chars.induct)
  case 1
  then show ?case by simp
next
  case (2 c s)
  show ?case
  proof (cases "c = DQUOTE")
    case True
    with "2.prems" show ?thesis by auto
  next
    case notq: False
    show ?thesis
    proof (cases "c = BACKSLASH")
      case True
      with notq "2.prems" "2.IH"(1,2) show ?thesis
        by (fastforce split: list.splits if_splits option.splits)
    next
      case False
      with notq "2.prems" "2.IH"(3) show ?thesis
        by (fastforce split: if_splits)
    qed
  qed
qed

lemma skip_ws_length: "skip_ws s = c # r \<Longrightarrow> length r < length s"
proof -
  assume h: "skip_ws s = c # r"
  have "length (dropWhile is_json_ws s) \<le> length s"
    by (rule length_dropWhile_le)
  with h show ?thesis by (simp add: skip_ws_def)
qed

text \<open>
  A JSON value, the elements of an array after its first \<^verbatim>\<open>[\<close>, and the members of an
  object after its first \<^verbatim>\<open>{\<close>. Each returns the value and the input left, or \<open>None\<close> for
  a syntax error. A member is defined with CreateDataProperty, so that a repeated key
  keeps its place and takes the later value (\<open>AList.update\<close>). The comparisons of lengths
  before the recursive calls always hold (\<open>parse_shorter\<close>, \<open>parse_elements_plain\<close>,
  \<open>parse_members_plain\<close>); they are what the termination proof uses.
\<close>

function parse_value :: "jsstring \<Rightarrow> (json \<times> jsstring) option"
  and parse_elements :: "jsstring \<Rightarrow> json list \<Rightarrow> (json \<times> jsstring) option"
  and parse_members :: "jsstring \<Rightarrow> (jsstring \<times> json) list \<Rightarrow> (json \<times> jsstring) option"
where
  "parse_value s =
     (case skip_ws s of
        [] \<Rightarrow> None
      | c # r \<Rightarrow>
          if c = LBRACE then
            (case skip_ws r of
               [] \<Rightarrow> None
             | d # r' \<Rightarrow> if d = RBRACE then Some (JObject [], r') else parse_members r [])
          else if c = LBRACKET then
            (case skip_ws r of
               [] \<Rightarrow> None
             | d # r' \<Rightarrow> if d = RBRACKET then Some (JArray [], r') else parse_elements r [])
          else if c = DQUOTE then map_option (\<lambda>(v, r'). (JString v, r')) (parse_chars r)
          else if take 4 (c # r) = js ''true'' then Some (JBool True, drop 3 r)
          else if take 5 (c # r) = js ''false'' then Some (JBool False, drop 4 r)
          else if take 4 (c # r) = js ''null'' then Some (JNull, drop 3 r)
          else parse_number (c # r))"
| "parse_elements s acc =
     (case parse_value s of
        None \<Rightarrow> None
      | Some (v, r) \<Rightarrow>
          (case skip_ws r of
             [] \<Rightarrow> None
           | c # r' \<Rightarrow>
               if c = COMMA then
                 (if length r' < length s then parse_elements r' (acc @ [v]) else None)
               else if c = RBRACKET then Some (JArray (acc @ [v]), r')
               else None))"
| "parse_members s acc =
     (case skip_ws s of
        [] \<Rightarrow> None
      | q # r \<Rightarrow>
          if q \<noteq> DQUOTE then None
          else
            (case parse_chars r of
               None \<Rightarrow> None
             | Some (k, r1) \<Rightarrow>
                 (case skip_ws r1 of
                    [] \<Rightarrow> None
                  | col # r2 \<Rightarrow>
                      if col \<noteq> COLON then None
                      else
                        (case parse_value r2 of
                           None \<Rightarrow> None
                         | Some (v, r3) \<Rightarrow>
                             (case skip_ws r3 of
                                [] \<Rightarrow> None
                              | c # r4 \<Rightarrow>
                                  if c = COMMA then
                                    (if length r4 < length s
                                     then parse_members r4 (AList.update k v acc) else None)
                                  else if c = RBRACE then Some (JObject (AList.update k v acc), r4)
                                  else None)))))"
  by pat_completeness auto

termination
  by (relation "inv_image (less_than <*lex*> less_than)
         (\<lambda>x. case x of Inl s \<Rightarrow> (length s, 0::nat)
                       | Inr (Inl (s, acc)) \<Rightarrow> (length s, 1)
                       | Inr (Inr (s, acc)) \<Rightarrow> (length s, 1))")
     (auto dest!: skip_ws_length parse_chars_shorter)

declare parse_value.simps [simp del] parse_elements.simps [simp del] parse_members.simps [simp del]

lemma parse_frac_length: "parse_frac s = Some (fp, r) \<Longrightarrow> length r \<le> length s"
  by (auto simp: parse_frac_def Let_def split: list.splits if_splits)

lemma parse_exp_length: "parse_exp s = Some (e, r) \<Longrightarrow> length r \<le> length s"
  by (auto simp: parse_exp_def Let_def split: list.splits if_splits prod.splits)

lemma parse_number_shorter: "parse_number s = Some (v, r) \<Longrightarrow> length r < length s"
proof -
  assume h: "parse_number s = Some (v, r)"
  obtain neg s1 where ns: "(case s of [] \<Rightarrow> (False, s) | c # r \<Rightarrow> if c = 0x2D then (True, r) else (False, s)) = (neg, s1)"
    by (cases "(case s of [] \<Rightarrow> (False, s) | c # r \<Rightarrow> if c = 0x2D then (True, r) else (False, s))")
  then have l1: "length s1 \<le> length s"
    by (auto split: list.splits if_splits)
  define ip where "ip = (case s1 of [] \<Rightarrow> [] | c # r \<Rightarrow> if c = 0x30 then [c] else takeWhile is_digit s1)"
  have l2: "length ip \<le> length s1"
    by (auto simp: ip_def length_takeWhile_le split: list.splits)
  from h ns have ne: "ip \<noteq> []"
    by (auto simp: parse_number_def Let_def ip_def split: if_splits)
  from h ns ne obtain fp s3 e where
    f: "parse_frac (drop (length ip) s1) = Some (fp, s3)" and x: "parse_exp s3 = Some (e, r)"
    by (auto simp: parse_number_def Let_def ip_def [symmetric] split: option.splits if_splits)
  from parse_frac_length [OF f] parse_exp_length [OF x] have "length r \<le> length s1 - length ip"
    by simp
  moreover from ne have "0 < length ip" by simp
  ultimately show ?thesis using l1 l2 by linarith
qed

lemma parse_shorter:
  "parse_value s = Some (v, r) \<Longrightarrow> length r < length s"
  "parse_elements s1 acc1 = Some (v1, r1) \<Longrightarrow> length r1 < length s1"
  "parse_members s2 acc2 = Some (v2, r2) \<Longrightarrow> length r2 < length s2"
proof (induction s and s1 acc1 and s2 acc2 arbitrary: v r and v1 r1 and v2 r2
       rule: parse_value_parse_elements_parse_members.induct)
  case (1 s)
  from "1.prems" obtain c t where sk: "skip_ws s = c # t"
    by (subst (asm) parse_value.simps) (auto split: list.splits)
  note len = skip_ws_length [OF sk]
  from "1.prems" sk have pv:
    "(if c = LBRACE then
        (case skip_ws t of [] \<Rightarrow> None
         | d # r' \<Rightarrow> if d = RBRACE then Some (JObject [], r') else parse_members t [])
      else if c = LBRACKET then
        (case skip_ws t of [] \<Rightarrow> None
         | d # r' \<Rightarrow> if d = RBRACKET then Some (JArray [], r') else parse_elements t [])
      else if c = DQUOTE then map_option (\<lambda>(v, r'). (JString v, r')) (parse_chars t)
      else if take 4 (c # t) = js ''true'' then Some (JBool True, drop 3 t)
      else if take 5 (c # t) = js ''false'' then Some (JBool False, drop 4 t)
      else if take 4 (c # t) = js ''null'' then Some (JNull, drop 3 t)
      else parse_number (c # t)) = Some (v, r)"
    by (subst (asm) parse_value.simps) simp
  show ?case
  proof (cases "c = LBRACE")
    case True
    show ?thesis
    proof (cases "skip_ws t")
      case Nil
      with pv True show ?thesis by simp
    next
      case (Cons d r')
      show ?thesis
      proof (cases "d = RBRACE")
        case True
        with pv \<open>c = LBRACE\<close> Cons have "r = r'" by simp
        with skip_ws_length [OF Cons] len show ?thesis by simp
      next
        case False
        with pv \<open>c = LBRACE\<close> Cons have "parse_members t [] = Some (v, r)" by simp
        from "1.IH"(1) [OF sk \<open>c = LBRACE\<close> Cons False this] len show ?thesis by simp
      qed
    qed
  next
    case nb: False
    show ?thesis
    proof (cases "c = LBRACKET")
      case True
      show ?thesis
      proof (cases "skip_ws t")
        case Nil
        with pv True show ?thesis by simp
      next
        case (Cons d r')
        show ?thesis
        proof (cases "d = RBRACKET")
          case True
          with pv \<open>c = LBRACKET\<close> Cons have "r = r'" by simp
          with skip_ws_length [OF Cons] len show ?thesis by simp
        next
          case False
          with pv \<open>c = LBRACKET\<close> Cons have "parse_elements t [] = Some (v, r)" by simp
          from "1.IH"(2) [OF sk nb \<open>c = LBRACKET\<close> Cons False this] len show ?thesis by simp
        qed
      qed
    next
      case nk: False
      show ?thesis
      proof (cases "c = DQUOTE")
        case True
        with pv nb nk obtain x where "parse_chars t = Some (x, r)" by auto
        from parse_chars_shorter [OF this] len show ?thesis by simp
      next
        case nq: False
        from pv nb nk nq len show ?thesis
          by (auto split: if_splits dest!: parse_number_shorter)
      qed
    qed
  qed
next
  case (2 s acc)
  from "2.prems" obtain x t where pv: "parse_value s = Some (x, t)"
    by (subst (asm) parse_elements.simps) (auto split: option.splits)
  from "2.IH"(1) [OF pv] have l: "length t < length s" .
  from "2.prems" pv obtain c t' where sk: "skip_ws t = c # t'"
    by (subst (asm) parse_elements.simps) (auto split: list.splits)
  note l2 = skip_ws_length [OF sk]
  from "2.prems" pv sk have
    "(if c = COMMA then (if length t' < length s then parse_elements t' (acc @ [x]) else None)
      else if c = RBRACKET then Some (JArray (acc @ [x]), t') else None) = Some (v1, r1)"
    by (subst (asm) parse_elements.simps) simp
  then show ?case
  proof (cases "c = COMMA")
    case True
    assume "(if c = COMMA then (if length t' < length s then parse_elements t' (acc @ [x]) else None)
      else if c = RBRACKET then Some (JArray (acc @ [x]), t') else None) = Some (v1, r1)"
    with True have lt: "length t' < length s" and pe: "parse_elements t' (acc @ [x]) = Some (v1, r1)"
      by (auto split: if_splits)
    from "2.IH"(2) [OF pv refl sk True lt pe] lt show ?thesis by simp
  next
    case False
    assume "(if c = COMMA then (if length t' < length s then parse_elements t' (acc @ [x]) else None)
      else if c = RBRACKET then Some (JArray (acc @ [x]), t') else None) = Some (v1, r1)"
    with False have "r1 = t'" by (auto split: if_splits)
    with l l2 show ?thesis by simp
  qed
next
  case (3 s acc)
  from "3.prems" obtain q t where sk: "skip_ws s = q # t"
    by (subst (asm) parse_members.simps) (auto split: list.splits)
  from "3.prems" sk have q: "q = DQUOTE"
    by (subst (asm) parse_members.simps) (auto split: if_splits)
  from "3.prems" sk q obtain k t1 where pc: "parse_chars t = Some (k, t1)"
    by (subst (asm) parse_members.simps) (auto split: option.splits)
  from "3.prems" sk q pc obtain col t2 where sk1: "skip_ws t1 = col # t2"
    by (subst (asm) parse_members.simps) (auto split: list.splits)
  from "3.prems" sk q pc sk1 have col: "col = COLON"
    by (subst (asm) parse_members.simps) (auto split: if_splits)
  from "3.prems" sk q pc sk1 col obtain x t3 where pv: "parse_value t2 = Some (x, t3)"
    by (subst (asm) parse_members.simps) (auto split: option.splits)
  from "3.prems" sk q pc sk1 col pv obtain c t4 where sk3: "skip_ws t3 = c # t4"
    by (subst (asm) parse_members.simps) (auto split: list.splits)
  from "3.prems" sk q pc sk1 col pv sk3 have fin:
    "(if c = COMMA then (if length t4 < length s then parse_members t4 (AList.update k x acc) else None)
      else if c = RBRACE then Some (JObject (AList.update k x acc), t4) else None) = Some (v2, r2)"
    by (subst (asm) parse_members.simps) simp
  have nq: "\<not> q \<noteq> DQUOTE" using q by simp
  have nc: "\<not> col \<noteq> COLON" using col by simp
  from "3.IH"(1) [OF sk nq pc refl sk1 nc pv] have l3: "length t3 < length t2" .
  from skip_ws_length [OF sk] parse_chars_shorter [OF pc] skip_ws_length [OF sk1] l3
    skip_ws_length [OF sk3]
  have l4: "length t4 < length s" by linarith
  show ?case
  proof (cases "c = COMMA")
    case True
    with fin l4 have pm: "parse_members t4 (AList.update k x acc) = Some (v2, r2)" by simp
    from "3.IH"(2) [OF sk nq pc refl sk1 nc pv refl sk3 True l4 pm] l4 show ?thesis by simp
  next
    case False
    with fin have "r2 = t4" by (auto split: if_splits)
    with l4 show ?thesis by simp
  qed
qed

text \<open>So the comparisons of lengths in the parser never fail: it obeys the plain equations.\<close>

lemma parse_elements_plain:
  "parse_elements s acc =
     (case parse_value s of
        None \<Rightarrow> None
      | Some (v, r) \<Rightarrow>
          (case skip_ws r of
             [] \<Rightarrow> None
           | c # r' \<Rightarrow>
               if c = COMMA then parse_elements r' (acc @ [v])
               else if c = RBRACKET then Some (JArray (acc @ [v]), r')
               else None))"
proof (cases "parse_value s")
  case None
  then show ?thesis by (subst parse_elements.simps) simp
next
  case (Some p)
  obtain v r where p: "p = (v, r)" by (cases p)
  from Some p have l: "length r < length s" by (simp add: parse_shorter(1))
  show ?thesis
  proof (cases "skip_ws r")
    case Nil
    with Some p show ?thesis by (subst parse_elements.simps) simp
  next
    case (Cons c r')
    from skip_ws_length [OF Cons] l have "length r' < length s" by simp
    with Some p Cons show ?thesis by (subst parse_elements.simps) simp
  qed
qed

lemma parse_members_plain:
  "parse_members s acc =
     (case skip_ws s of
        [] \<Rightarrow> None
      | q # r \<Rightarrow>
          if q \<noteq> DQUOTE then None
          else
            (case parse_chars r of
               None \<Rightarrow> None
             | Some (k, r1) \<Rightarrow>
                 (case skip_ws r1 of
                    [] \<Rightarrow> None
                  | col # r2 \<Rightarrow>
                      if col \<noteq> COLON then None
                      else
                        (case parse_value r2 of
                           None \<Rightarrow> None
                         | Some (v, r3) \<Rightarrow>
                             (case skip_ws r3 of
                                [] \<Rightarrow> None
                              | c # r4 \<Rightarrow>
                                  if c = COMMA then parse_members r4 (AList.update k v acc)
                                  else if c = RBRACE then Some (JObject (AList.update k v acc), r4)
                                  else None)))))"
proof -
  have "length r4 < length s"
    if "skip_ws s = q # r" "parse_chars r = Some (k, r1)" "skip_ws r1 = col # r2"
       "parse_value r2 = Some (v, r3)" "skip_ws r3 = c # r4"
    for q r k r1 col r2 v r3 c r4
    using skip_ws_length [OF that(1)] parse_chars_shorter [OF that(2)] skip_ws_length [OF that(3)]
      parse_shorter(1) [OF that(4)] skip_ws_length [OF that(5)]
    by linarith
  then show ?thesis
    by (subst parse_members.simps)
       (simp split: list.splits option.splits prod.splits)
qed

text \<open>
  \<^verbatim>\<open>JSON.parse(text)\<close>: one value between optional white space, or a SyntaxError.
\<close>

definition JSON_parse :: "jsstring \<Rightarrow> exn + json" where
  "JSON_parse s =
     (case parse_value s of
        None \<Rightarrow> Inl SyntaxError
      | Some (v, r) \<Rightarrow> if skip_ws r = [] then Inr v else Inl SyntaxError)"

section \<open>Computations: exceptions and the console\<close>

text \<open>
  The only state \<^verbatim>\<open>extractJson\<close> touches is the console, to which its outer
  \<^verbatim>\<open>catch\<close> writes. A computation takes the world and returns the world together with
  either a thrown exception (\<open>Inl\<close>) or a returned value (\<open>Inr\<close>).
\<close>

record world =
  console :: "(jsstring \<times> exn) list"

type_synonym 'a comp = "world \<Rightarrow> (exn + 'a) \<times> world"

definition return_val :: "'a \<Rightarrow> 'a comp" where
  "return_val v = (\<lambda>w. (Inr v, w))"

definition throw :: "exn \<Rightarrow> 'a comp" where
  "throw e = (\<lambda>w. (Inl e, w))"

definition completion :: "exn + 'a \<Rightarrow> 'a comp" where
  "completion r = (case r of Inl e \<Rightarrow> throw e | Inr v \<Rightarrow> return_val v)"

definition try_catch :: "'a comp \<Rightarrow> (exn \<Rightarrow> 'a comp) \<Rightarrow> 'a comp" where
  "try_catch body handler =
     (\<lambda>w. case body w of (Inl e, w') \<Rightarrow> handler e w' | (Inr v, w') \<Rightarrow> (Inr v, w'))"

definition console_error :: "jsstring \<Rightarrow> exn \<Rightarrow> world \<Rightarrow> world" where
  "console_error msg e w = w\<lparr>console := console w @ [(msg, e)]\<rparr>"

section \<open>\<^verbatim>\<open>extractJson\<close>\<close>

text \<open>
  \<^verbatim>\<open>match && match[1]\<close>: the match is not \<^verbatim>\<open>null\<close> and its group is neither
  \<^verbatim>\<open>undefined\<close> nor the empty string. The result is the group when the test holds.
\<close>

definition group1 :: "(jsstring \<times> jsstring option) option \<Rightarrow> jsstring option" where
  "group1 mt =
     (case mt of
        None \<Rightarrow> None
      | Some (whole, None) \<Rightarrow> None
      | Some (whole, Some g) \<Rightarrow> if g = [] then None else Some g)"

text \<open>
  Lines 21 to 45, the body of the outer \<^verbatim>\<open>try\<close>. \<^verbatim>\<open>JSON.parse\<close> of the fenced candidate
  is not protected here, so its exception leaves the block; the one of the fallback
  candidate is caught by the inner \<^verbatim>\<open>try\<close> (lines 37 to 42), whose empty \<^verbatim>\<open>catch\<close> falls
  through to \<^verbatim>\<open>return null\<close>.
\<close>

definition extractJson_body :: "jsstring \<Rightarrow> json comp" where
  "extractJson_body text =
     (let match = string_match text jsonRegex in
      case group1 match of
        Some jsonString \<Rightarrow> completion (JSON_parse jsonString)
      | None \<Rightarrow>
          (let fallbackMatch = string_match text fallbackRegex in
           case group1 fallbackMatch of
             Some candidate \<Rightarrow>
               try_catch (completion (JSON_parse candidate)) (\<lambda>e. return_val JNull)
           | None \<Rightarrow> return_val JNull))"

text \<open>
  Lines 19 to 50: the outer \<^verbatim>\<open>try\<close> and its \<^verbatim>\<open>catch\<close>, which writes to the console and
  returns \<^verbatim>\<open>null\<close>.
\<close>

definition extractJson :: "jsstring \<Rightarrow> json comp" where
  "extractJson text =
     try_catch (extractJson_body text)
       (\<lambda>error w. (Inr JNull, console_error (js ''Error extracting JSON:'') error w))"

section \<open>Facts about the matcher\<close>

declare m.simps(6,7) [simp del]

lemma in_m_Star:
  "st' \<in> set (m (Star r) st) \<longleftrightarrow>
     st' = st \<or> (\<exists>st1\<in>set (m r st). length (fst st1) < length (fst st) \<and> st' \<in> set (m (Star r) st1))"
  by (subst m.simps(6)) (simp split: if_splits, blast)

lemma in_m_LazyStar:
  "st' \<in> set (m (LazyStar r) st) \<longleftrightarrow>
     st' = st \<or> (\<exists>st1\<in>set (m r st). length (fst st1) < length (fst st) \<and> st' \<in> set (m (LazyStar r) st1))"
  by (subst m.simps(7)) (simp split: if_splits, blast)

lemma seqs_Nil: "seqs [] = Eps"
  by (simp add: seqs_def)

lemma seqs_Cons: "seqs (r # rs) = Seq r (seqs rs)"
  by (simp add: seqs_def)

lemma str_Nil: "str [] = Eps"
  by (simp add: str_def seqs_def)

lemma str_Cons: "str (c # cs) = Seq (Chr c) (str cs)"
  by (simp add: str_def seqs_def)

lemma m_str: "m (str p) (s, cap) = (if take (length p) s = p then [(drop (length p) s, cap)] else [])"
proof (induction p arbitrary: s)
  case Nil
  then show ?case by (simp add: str_Nil)
next
  case (Cons c cs)
  show ?case
  proof (cases s)
    case Nil
    then show ?thesis by (simp add: str_Cons)
  next
    case (Cons x xs)
    with Cons.IH [of xs] show ?thesis by (simp add: str_Cons)
  qed
qed

lemma m_Star_Cls:
  "m (Star (Cls p)) (s, cap) =
     (case s of
        [] \<Rightarrow> [([], cap)]
      | x # xs \<Rightarrow> if p x then m (Star (Cls p)) (xs, cap) @ [(x # xs, cap)] else [(x # xs, cap)])"
  by (subst m.simps(6)) (cases s; simp)

lemma m_LazyStar_Cls:
  "m (LazyStar (Cls p)) (s, cap) =
     (case s of
        [] \<Rightarrow> [([], cap)]
      | x # xs \<Rightarrow> if p x then (x # xs, cap) # m (LazyStar (Cls p)) (xs, cap) else [(x # xs, cap)])"
  by (subst m.simps(7)) (cases s; simp)

lemma m_extends: "st' \<in> set (m r st) \<Longrightarrow> \<exists>u. fst st = u @ fst st'"
proof (induction r st arbitrary: st' rule: m.induct)
  case (1 st)
  then show ?case by simp
next
  case (2 c s cap)
  then show ?case by (auto split: list.splits if_splits)
next
  case (3 p s cap)
  then show ?case by (auto split: list.splits if_splits)
next
  case (4 r1 r2 st)
  from "4.prems" obtain st1 where a: "st1 \<in> set (m r1 st)" and b: "st' \<in> set (m r2 st1)"
    by auto
  from "4.IH"(1) [OF a] obtain u where u: "fst st = u @ fst st1" by blast
  from "4.IH"(2) [OF a b] obtain v where v: "fst st1 = v @ fst st'" by blast
  from u v have "fst st = (u @ v) @ fst st'" by simp
  then show ?case by blast
next
  case (5 r st)
  from "5.prems" have "st' = st \<or> st' \<in> set (m r st)" by (simp, blast)
  then show ?case
  proof
    assume "st' = st"
    then show ?thesis by simp
  next
    assume "st' \<in> set (m r st)"
    then show ?thesis by (rule "5.IH")
  qed
next
  case (6 r st)
  from "6.prems" consider "st' = st"
    | st1 where "st1 \<in> set (m r st)" "length (fst st1) < length (fst st)" "st' \<in> set (m (Star r) st1)"
    by (subst (asm) in_m_Star) blast
  then show ?case
  proof cases
    case 1
    then show ?thesis by simp
  next
    case 2
    from "6.IH"(1) [OF 2(1)] obtain u where u: "fst st = u @ fst st1" by blast
    from "6.IH"(2) [OF 2(1) 2(2) 2(3)] obtain v where v: "fst st1 = v @ fst st'" by blast
    from u v have "fst st = (u @ v) @ fst st'" by simp
    then show ?thesis by blast
  qed
next
  case (7 r st)
  from "7.prems" consider "st' = st"
    | st1 where "st1 \<in> set (m r st)" "length (fst st1) < length (fst st)" "st' \<in> set (m (LazyStar r) st1)"
    by (subst (asm) in_m_LazyStar) blast
  then show ?case
  proof cases
    case 1
    then show ?thesis by simp
  next
    case 2
    from "7.IH"(1) [OF 2(1)] obtain u where u: "fst st = u @ fst st1" by blast
    from "7.IH"(2) [OF 2(1) 2(2) 2(3)] obtain v where v: "fst st1 = v @ fst st'" by blast
    from u v have "fst st = (u @ v) @ fst st'" by simp
    then show ?thesis by blast
  qed
next
  case (8 r s cap)
  then show ?case by auto
qed


definition closes_fence :: "jsstring \<Rightarrow> bool" where
  "closes_fence r \<longleftrightarrow> take 3 (dropWhile is_space r) = js ''```''"

fun after_braces :: "jsstring \<Rightarrow> jsstring list" where
  "after_braces [] = []"
| "after_braces (c # s) = (if c = RBRACE then s # after_braces s else after_braces s)"

definition early_close :: "jsstring \<Rightarrow> bool" where
  "early_close body \<longleftrightarrow> (\<exists>v\<in>set (after_braces body). v \<noteq> [] \<and> closes_fence v)"

lemma fence3: "js ''```'' = [BACKTICK, BACKTICK, BACKTICK]"
  by (simp add: js_def cu_def)

lemma json4: "js ''json'' = [0x6A, 0x73, 0x6F, 0x6E]"
  by (simp add: js_def cu_def)

lemma space_not_backtick: "is_space c \<Longrightarrow> c \<noteq> BACKTICK"
  by (auto simp: is_space_def)

lemma backtick_not_space: "\<not> is_space BACKTICK"
  by (simp add: is_space_def)

lemma space_not_brace: "is_space c \<Longrightarrow> c \<noteq> LBRACE \<and> c \<noteq> RBRACE"
  by (auto simp: is_space_def)

lemma space_not_j: "is_space c \<Longrightarrow> c \<noteq> 0x6A"
  by (auto simp: is_space_def)

lemma closes_fence_alt:
  "closes_fence r \<longleftrightarrow> take 3 (dropWhile is_space r) = [BACKTICK, BACKTICK, BACKTICK]"
  by (simp add: closes_fence_def fence3)

lemma m_close:
  "m (seqs [Star (Cls is_space), str (js ''```'')]) (r, cap) =
     (if closes_fence r then [(drop 3 (dropWhile is_space r), cap)] else [])"
proof -
  let ?f = "[BACKTICK, BACKTICK, BACKTICK]"
  let ?k = "m (Seq (str ?f) Eps)"
  have tail: "?k (u, cap) = (if take 3 u = ?f then [(drop 3 u, cap)] else [])" for u
    by (simp add: m_str numeral_3_eq_3)
  have "concat (map ?k (m (Star (Cls is_space)) (r, cap))) =
        (if closes_fence r then [(drop 3 (dropWhile is_space r), cap)] else [])"
  proof (induction r)
    case Nil
    have "m (Star (Cls is_space)) ([], cap) = [([], cap)]"
      by (subst m_Star_Cls) simp
    then show ?case by (simp add: tail closes_fence_alt del: m.simps)
  next
    case (Cons x xs)
    show ?case
    proof (cases "is_space x")
      case True
      then have nb: "x \<noteq> BACKTICK" by (rule space_not_backtick)
      have k: "?k (x # xs, cap) = []"
        using nb by (simp add: tail del: m.simps)
      have step: "m (Star (Cls is_space)) (x # xs, cap) =
                  m (Star (Cls is_space)) (xs, cap) @ [(x # xs, cap)]"
        using True by (subst m_Star_Cls) simp
      from True Cons.IH k show ?thesis
        by (simp add: step closes_fence_alt del: m.simps)
    next
      case False
      have step: "m (Star (Cls is_space)) (x # xs, cap) = [(x # xs, cap)]"
        using False by (subst m_Star_Cls) simp
      from False show ?thesis
        by (simp add: step tail closes_fence_alt backtick_not_space del: m.simps)
    qed
  qed
  then show ?thesis by (simp add: seqs_Cons seqs_Nil fence3)
qed

lemma m_lazy_body:
  "m (seqs [LazyStar (Cls (\<lambda>c. True)), Chr RBRACE]) (w, cap) =
     map (\<lambda>v. (v, cap)) (after_braces w)"
proof -
  let ?k = "m (Seq (Chr RBRACE) Eps)"
  have "concat (map ?k (m (LazyStar (Cls (\<lambda>c. True))) (w, cap))) =
        map (\<lambda>v. (v, cap)) (after_braces w)"
  proof (induction w)
    case Nil
    have "m (LazyStar (Cls (\<lambda>c. True))) ([], cap) = [([], cap)]"
      by (subst m_LazyStar_Cls) simp
    then show ?case by simp
  next
    case (Cons x xs)
    have step: "m (LazyStar (Cls (\<lambda>c. True))) (x # xs, cap) =
                (x # xs, cap) # m (LazyStar (Cls (\<lambda>c. True))) (xs, cap)"
      by (subst m_LazyStar_Cls) simp
    have k: "?k (x # xs, cap) = (if x = RBRACE then [(xs, cap)] else [])"
      by simp
    from Cons.IH k show ?case
      by (simp add: step del: m.simps)
  qed
  then show ?thesis by (simp add: seqs_Cons seqs_Nil)
qed

lemma m_greedy_body:
  "m (seqs [Star (Cls (\<lambda>c. True)), Chr RBRACE]) (w, cap) =
     map (\<lambda>v. (v, cap)) (rev (after_braces w))"
proof -
  let ?k = "m (Seq (Chr RBRACE) Eps)"
  have "concat (map ?k (m (Star (Cls (\<lambda>c. True))) (w, cap))) =
        map (\<lambda>v. (v, cap)) (rev (after_braces w))"
  proof (induction w)
    case Nil
    have "m (Star (Cls (\<lambda>c. True))) ([], cap) = [([], cap)]"
      by (subst m_Star_Cls) simp
    then show ?case by simp
  next
    case (Cons x xs)
    have step: "m (Star (Cls (\<lambda>c. True))) (x # xs, cap) =
                m (Star (Cls (\<lambda>c. True))) (xs, cap) @ [(x # xs, cap)]"
      by (subst m_Star_Cls) simp
    have k: "?k (x # xs, cap) = (if x = RBRACE then [(xs, cap)] else [])"
      by simp
    from Cons.IH k show ?case
      by (simp add: step del: m.simps)
  qed
  then show ?thesis by (simp add: seqs_Cons seqs_Nil)
qed

lemma m_fenced_group:
  "m (Group (seqs [Chr LBRACE, LazyStar (Cls (\<lambda>c. True)), Chr RBRACE])) (s, cap) =
     (case s of
        [] \<Rightarrow> []
      | x # w \<Rightarrow>
          if x = LBRACE
          then map (\<lambda>v. (v, Some (take (length s - length v) s))) (after_braces w)
          else [])"
proof (cases s)
  case Nil
  then show ?thesis by (simp add: seqs_Cons [of "Chr LBRACE"])
next
  case (Cons x w)
  then show ?thesis
    by (simp add: seqs_Cons [of "Chr LBRACE"] m_lazy_body comp_def del: m.simps(4))
       (simp add: m_lazy_body comp_def)
qed

lemma m_fallbackRegex:
  "m fallbackRegex (s, cap) =
     (case s of
        [] \<Rightarrow> []
      | x # w \<Rightarrow>
          if x = LBRACE
          then map (\<lambda>v. (v, Some (take (length s - length v) s))) (rev (after_braces w))
          else [])"
proof (cases s)
  case Nil
  then show ?thesis by (simp add: fallbackRegex_def seqs_Cons [of "Chr LBRACE"])
next
  case (Cons x w)
  then show ?thesis
    by (simp add: fallbackRegex_def seqs_Cons [of "Chr LBRACE"] m_greedy_body comp_def)
qed

lemma after_braces_append:
  "after_braces (a @ b) = map (\<lambda>v. v @ b) (after_braces a) @ after_braces b"
  by (induction a) simp_all

lemma after_braces_none: "RBRACE \<notin> set s \<Longrightarrow> after_braces s = []"
  by (induction s) simp_all

lemma after_braces_shorter: "v \<in> set (after_braces w) \<Longrightarrow> length v < length w"
  by (induction w) (auto split: if_splits)

section \<open>The first match of a pattern in a text\<close>

lemma string_match_here:
  "m r (s, None) = (s', cap) # rest \<Longrightarrow>
   string_match s r = Some (take (length s - length s') s, cap)"
  by (cases s) simp_all

lemma string_match_skip:
  "(\<And>k. k < length pre \<Longrightarrow> m r (drop k (pre @ s), None) = []) \<Longrightarrow>
   string_match (pre @ s) r = string_match s r"
proof (induction pre)
  case Nil
  then show ?case by simp
next
  case (Cons x pre)
  from Cons.prems [of 0] have h0: "m r (x # pre @ s, None) = []" by simp
  have "m r (drop k (pre @ s), None) = []" if "k < length pre" for k
    using Cons.prems [of "Suc k"] that by simp
  then have "string_match (pre @ s) r = string_match s r" by (rule Cons.IH)
  with h0 show ?case by simp
qed

lemma string_match_None:
  "(\<And>k. k \<le> length s \<Longrightarrow> m r (drop k s, None) = []) \<Longrightarrow> string_match s r = None"
proof (induction s)
  case Nil
  from Nil [of 0] show ?case by simp
next
  case (Cons x xs)
  from Cons.prems [of 0] have h0: "m r (x # xs, None) = []" by simp
  have "m r (drop k xs, None) = []" if "k \<le> length xs" for k
    using Cons.prems [of "Suc k"] that by simp
  then have "string_match xs r = None" by (rule Cons.IH)
  with h0 show ?case by simp
qed

lemma string_match_Some:
  "string_match s r = Some (whole, cap) \<Longrightarrow> \<exists>k s'. (s', cap) \<in> set (m r (drop k s, None))"
proof (induction s)
  case Nil
  then have "\<exists>s'. (s', cap) \<in> set (m r ([], None))"
    by (auto split: list.splits)
  then show ?case by simp
next
  case (Cons x xs)
  show ?case
  proof (cases "m r (x # xs, None)")
    case Nil
    with Cons.prems have "string_match xs r = Some (whole, cap)" by simp
    from Cons.IH [OF this] obtain k s' where "(s', cap) \<in> set (m r (drop k xs, None))"
      by blast
    then have "(s', cap) \<in> set (m r (drop (Suc k) (x # xs), None))" by simp
    then show ?thesis by blast
  next
    case (Cons st rest)
    with Cons.prems have "snd st = cap" by (cases st) simp
    with Cons have "(fst st, cap) \<in> set (m r (drop 0 (x # xs), None))" by (cases st) simp
    then show ?thesis by blast
  qed
qed

text \<open>The fallback pattern: from the first opening brace to the last closing brace.\<close>

lemma m_fallbackRegex_span:
  assumes "RBRACE \<notin> set post"
  shows "\<exists>rest. m fallbackRegex (LBRACE # mid @ RBRACE # post, None) =
           (post, Some (LBRACE # mid @ [RBRACE])) # rest"
proof -
  have "after_braces (mid @ RBRACE # post) = map (\<lambda>v. v @ RBRACE # post) (after_braces mid) @ [post]"
    using assms by (simp add: after_braces_append after_braces_none)
  then have "rev (after_braces (mid @ RBRACE # post)) =
             post # rev (map (\<lambda>v. v @ RBRACE # post) (after_braces mid))"
    by simp
  then show ?thesis
    by (simp add: m_fallbackRegex)
qed

lemma m_fallbackRegex_no_brace:
  "LBRACE \<notin> set s \<Longrightarrow> m fallbackRegex (drop k s, None) = []"
proof -
  assume h: "LBRACE \<notin> set s"
  have "set (drop k s) \<subseteq> set s" by (rule set_drop_subset)
  with h have "LBRACE \<notin> set (drop k s)" by blast
  then show ?thesis
    by (cases "drop k s") (simp_all add: m_fallbackRegex)
qed

lemma string_match_fallback_span:
  assumes "LBRACE \<notin> set pre" and "RBRACE \<notin> set post"
  shows "string_match (pre @ LBRACE # mid @ RBRACE # post) fallbackRegex =
           Some (LBRACE # mid @ [RBRACE], Some (LBRACE # mid @ [RBRACE]))"
proof -
  let ?s = "LBRACE # mid @ RBRACE # post"
  have "m fallbackRegex (drop k (pre @ ?s), None) = []" if "k < length pre" for k
  proof -
    from that obtain x xs where d: "drop k pre = x # xs" by (cases "drop k pre") simp_all
    then have "x \<in> set (drop k pre)" by simp
    then have "x \<in> set pre" by (rule in_set_dropD)
    with assms(1) have "x \<noteq> LBRACE" by blast
    moreover from that d have "drop k (pre @ ?s) = x # xs @ ?s" by simp
    ultimately show ?thesis by (simp add: m_fallbackRegex)
  qed
  then have "string_match (pre @ ?s) fallbackRegex = string_match ?s fallbackRegex"
    by (rule string_match_skip)
  moreover from m_fallbackRegex_span [OF assms(2)] obtain rest where
    "m fallbackRegex (?s, None) = (post, Some (LBRACE # mid @ [RBRACE])) # rest" by blast
  then have "string_match ?s fallbackRegex = Some (LBRACE # mid @ [RBRACE], Some (LBRACE # mid @ [RBRACE]))"
    by (simp add: string_match_here)
  ultimately show ?thesis by simp
qed

section \<open>The fenced pattern\<close>

lemma closes_fence_spaces:
  "\<forall>c\<in>set ws. is_space c \<Longrightarrow> closes_fence (ws @ r) = closes_fence r"
  by (induction ws) (simp_all add: closes_fence_def)

lemma dropWhile_spaces:
  "\<forall>c\<in>set ws. is_space c \<Longrightarrow> dropWhile is_space (ws @ r) = dropWhile is_space r"
  by (induction ws) simp_all

lemma closes_fence_extend:
  "closes_fence (a @ RBRACE # tail) \<Longrightarrow> closes_fence (a @ [RBRACE])"
proof (induction a)
  case Nil
  then show ?case by (simp add: closes_fence_alt is_space_def)
next
  case (Cons x a)
  show ?case
  proof (cases "is_space x")
    case True
    with Cons show ?thesis by (simp add: closes_fence_def)
  next
    case False
    with Cons.prems have t: "take 3 (x # a @ RBRACE # tail) = [BACKTICK, BACKTICK, BACKTICK]"
      by (simp add: closes_fence_alt)
    have "take 3 (x # a @ [RBRACE]) = [BACKTICK, BACKTICK, BACKTICK]"
    proof (cases a)
      case Nil
      with t show ?thesis by (simp add: numeral_3_eq_3)
    next
      case (Cons y b)
      note a = this
      show ?thesis
      proof (cases b)
        case Nil
        with a t show ?thesis by (simp add: numeral_3_eq_3)
      next
        case (Cons z c)
        with a t show ?thesis by (simp add: numeral_3_eq_3)
      qed
    qed
    with False show ?thesis by (simp add: closes_fence_alt)
  qed
qed

lemma no_early_close:
  assumes "\<not> early_close (LBRACE # mid @ [RBRACE])" and "v \<in> set (after_braces mid)"
  shows "\<not> closes_fence (v @ RBRACE # tail)"
proof
  assume c: "closes_fence (v @ RBRACE # tail)"
  then have "closes_fence (v @ [RBRACE])" by (rule closes_fence_extend)
  moreover from assms(2) have "v @ [RBRACE] \<in> set (after_braces (LBRACE # mid @ [RBRACE]))"
    by (simp add: after_braces_append)
  ultimately have "early_close (LBRACE # mid @ [RBRACE])"
    unfolding early_close_def by blast
  with assms(1) show False by simp
qed

text \<open>The group and the closing fence, from an opening brace on.\<close>

lemma m_body_close:
  "m (seqs [Group (seqs [Chr LBRACE, LazyStar (Cls (\<lambda>c. True)), Chr RBRACE]),
            Star (Cls is_space), str (js ''```'')]) (LBRACE # w, cap) =
     concat (map (\<lambda>v. if closes_fence v
                        then [(drop 3 (dropWhile is_space v),
                               Some (take (Suc (length w) - length v) (LBRACE # w)))]
                        else [])
                 (after_braces w))"
proof -
  let ?g = "Group (seqs [Chr LBRACE, LazyStar (Cls (\<lambda>c. True)), Chr RBRACE])"
  let ?c = "seqs [Star (Cls is_space), str (js ''```'')]"
  have "m (seqs [?g, Star (Cls is_space), str (js ''```'')]) (LBRACE # w, cap) =
        concat (map (m ?c) (m ?g (LBRACE # w, cap)))"
    by (simp add: seqs_Cons [of ?g])
  also have "\<dots> = concat (map (\<lambda>v. m ?c (v, Some (take (Suc (length w) - length v) (LBRACE # w))))
                             (after_braces w))"
    by (simp add: m_fenced_group comp_def del: m.simps)
  also have "\<dots> = concat (map (\<lambda>v. if closes_fence v
                        then [(drop 3 (dropWhile is_space v),
                               Some (take (Suc (length w) - length v) (LBRACE # w)))]
                        else [])
                 (after_braces w))"
    by (simp only: m_close)
  finally show ?thesis .
qed

lemma m_body_close_no_brace:
  "(case s of [] \<Rightarrow> True | x # w \<Rightarrow> x \<noteq> LBRACE) \<Longrightarrow>
   m (seqs [Group (seqs [Chr LBRACE, LazyStar (Cls (\<lambda>c. True)), Chr RBRACE]),
            Star (Cls is_space), str (js ''```'')]) (s, cap) = []"
  by (cases s)
     (simp_all add: seqs_Cons [of "Group (seqs [Chr LBRACE, LazyStar (Cls (\<lambda>c. True)), Chr RBRACE])"]
        m_fenced_group del: m.simps(8))

lemma m_body_close_head:
  assumes "\<not> early_close (LBRACE # mid @ [RBRACE])" and "\<forall>c\<in>set ws2. is_space c"
  shows "\<exists>rest.
     m (seqs [Group (seqs [Chr LBRACE, LazyStar (Cls (\<lambda>c. True)), Chr RBRACE]),
              Star (Cls is_space), str (js ''```'')])
       (LBRACE # mid @ RBRACE # ws2 @ js ''```'' @ post, cap) =
     (post, Some (LBRACE # mid @ [RBRACE])) # rest"
proof -
  let ?tail = "ws2 @ js ''```'' @ post"
  let ?w = "mid @ RBRACE # ?tail"
  let ?F = "\<lambda>v. if closes_fence v
                 then [(drop 3 (dropWhile is_space v),
                        Some (take (Suc (length ?w) - length v) (LBRACE # ?w)))]
                 else []"
  have split: "after_braces ?w =
               map (\<lambda>v. v @ RBRACE # ?tail) (after_braces mid) @ ?tail # after_braces ?tail"
    by (simp add: after_braces_append)
  have early: "concat (map ?F (map (\<lambda>v. v @ RBRACE # ?tail) (after_braces mid))) = []"
    using no_early_close [OF assms(1)] by (simp add: comp_def)
  have dw: "dropWhile is_space ?tail = js ''```'' @ post"
    using assms(2) by (simp add: dropWhile_spaces fence3 backtick_not_space)
  then have cl: "closes_fence ?tail"
    by (simp add: closes_fence_def fence3)
  have tk: "take (Suc (length ?w) - length ?tail) (LBRACE # ?w) = LBRACE # mid @ [RBRACE]"
    by simp
  have "?F ?tail = [(post, Some (LBRACE # mid @ [RBRACE]))]"
    using cl dw tk by (simp add: fence3)
  with split early have
    "concat (map ?F (after_braces ?w)) =
       (post, Some (LBRACE # mid @ [RBRACE])) # concat (map ?F (after_braces ?tail))"
    by (simp del: after_braces.simps)
  then show ?thesis
    by (simp only: m_body_close) blast
qed

abbreviation fenced_body :: regex where
  "fenced_body \<equiv>
     seqs [Group (seqs [Chr LBRACE, LazyStar (Cls (\<lambda>c. True)), Chr RBRACE]),
           Star (Cls is_space), str (js ''```'')]"

lemma jsonRegex_alt:
  "jsonRegex =
     Seq (str (js ''```'')) (Seq (Opt (str (js ''json''))) (Seq (Star (Cls is_space)) fenced_body))"
  by (simp add: jsonRegex_def seqs_def)

lemma m_Seq_fun: "m (Seq r1 r2) = (\<lambda>st. concat (map (m r2) (m r1 st)))"
  by (rule ext) simp

lemma m_opt_json:
  "m (Opt (str (js ''json''))) (x, cap) =
     (if take 4 x = js ''json'' then [(drop 4 x, cap), (x, cap)] else [(x, cap)])"
proof -
  have "length (js ''json'') = 4" by (simp add: js_def)
  then have "m (str (js ''json'')) (x, cap) =
             (if take 4 x = js ''json'' then [(drop 4 x, cap)] else [])"
    by (simp add: m_str)
  moreover have "x \<noteq> []" if "take 4 x = js ''json''"
    using that by (auto simp: json4)
  ultimately show ?thesis by (auto simp del: m.simps(4))
qed

lemma m_jsonRegex:
  "m jsonRegex (u, cap) =
     (if take 3 u = js ''```''
      then concat (map (\<lambda>st. concat (map (m fenced_body) (m (Star (Cls is_space)) st)))
                       (m (Opt (str (js ''json''))) (drop 3 u, cap)))
      else [])"
proof -
  have "length (js ''```'') = 3" by (simp add: js_def)
  then have "m (str (js ''```'')) (u, cap) =
             (if take 3 u = js ''```'' then [(drop 3 u, cap)] else [])"
    by (simp add: m_str)
  then show ?thesis
    by (simp add: jsonRegex_alt m_Seq_fun [of "Star (Cls is_space)"] del: m.simps(5,8))
qed

lemma m_Star_spaces:
  assumes "\<forall>c\<in>set ws. is_space c" and "\<not> is_space x"
  shows "\<exists>others. m (Star (Cls is_space)) (ws @ x # z, cap) = (x # z, cap) # others"
  using assms(1)
proof (induction ws)
  case Nil
  from assms(2) have "m (Star (Cls is_space)) (x # z, cap) = [(x # z, cap)]"
    by (subst m_Star_Cls) simp
  then show ?case by simp
next
  case (Cons y ws)
  then obtain others where o: "m (Star (Cls is_space)) (ws @ x # z, cap) = (x # z, cap) # others"
    by auto
  from Cons.prems have "is_space y" by simp
  then have "m (Star (Cls is_space)) ((y # ws) @ x # z, cap) =
             m (Star (Cls is_space)) (ws @ x # z, cap) @ [((y # ws) @ x # z, cap)]"
    by (subst m_Star_Cls) simp
  with o show ?case by simp
qed

lemma lbrace_not_space: "\<not> is_space LBRACE"
  by (simp add: is_space_def)

text \<open>
  At an opening fence whose body has no earlier closing place, the first alternative of
  the fenced pattern captures the whole body.
\<close>

lemma m_jsonRegex_fence:
  assumes tag: "tag = [] \<or> tag = js ''json''"
    and ws1: "\<forall>c\<in>set ws1. is_space c"
    and ws2: "\<forall>c\<in>set ws2. is_space c"
    and early: "\<not> early_close (LBRACE # mid @ [RBRACE])"
  shows "\<exists>rest.
     m jsonRegex (js ''```'' @ tag @ ws1 @ LBRACE # mid @ RBRACE # ws2 @ js ''```'' @ post, None) =
     (post, Some (LBRACE # mid @ [RBRACE])) # rest"
proof -
  let ?b = "LBRACE # mid @ RBRACE # ws2 @ js ''```'' @ post"
  let ?K = "\<lambda>st. concat (map (m fenced_body) (m (Star (Cls is_space)) st))"
  from m_body_close_head [OF early ws2] obtain r1 where
    body: "m fenced_body (?b, None) = (post, Some (LBRACE # mid @ [RBRACE])) # r1"
    by blast
  from m_Star_spaces [OF ws1 lbrace_not_space] obtain others where
    sp: "m (Star (Cls is_space)) (ws1 @ ?b, None) = (?b, None) # others"
    by blast
  from body sp obtain r2 where K: "?K (ws1 @ ?b, None) = (post, Some (LBRACE # mid @ [RBRACE])) # r2"
    by (simp del: m.simps)
  have nj: "take 4 (ws1 @ ?b) \<noteq> js ''json''"
  proof (cases ws1)
    case Nil
    then show ?thesis by (simp add: json4)
  next
    case (Cons y ys)
    with ws1 have "is_space y" by simp
    then have "y \<noteq> 0x6A" by (rule space_not_j)
    with Cons show ?thesis by (simp add: json4)
  qed
  have "\<exists>rest. concat (map ?K (m (Opt (str (js ''json''))) (tag @ ws1 @ ?b, None))) =
          (post, Some (LBRACE # mid @ [RBRACE])) # rest"
  proof (cases "tag = []")
    case True
    with nj have "m (Opt (str (js ''json''))) (tag @ ws1 @ ?b, None) = [(ws1 @ ?b, None)]"
      by (simp add: m_opt_json del: m.simps)
    with K show ?thesis by (simp del: m.simps)
  next
    case False
    with tag have t: "tag = js ''json''" by simp
    have "take 4 (js ''json'' @ ws1 @ ?b) = js ''json''" "drop 4 (js ''json'' @ ws1 @ ?b) = ws1 @ ?b"
      by (simp_all add: js_def)
    with t have "m (Opt (str (js ''json''))) (tag @ ws1 @ ?b, None) =
                 [(ws1 @ ?b, None), (tag @ ws1 @ ?b, None)]"
      by (simp add: m_opt_json del: m.simps)
    with K show ?thesis by (simp del: m.simps)
  qed
  moreover have "take 3 (js ''```'' @ tag @ ws1 @ ?b) = js ''```''"
    "drop 3 (js ''```'' @ tag @ ws1 @ ?b) = tag @ ws1 @ ?b"
    by (simp_all add: js_def)
  ultimately show ?thesis
    by (simp add: m_jsonRegex del: m.simps)
qed

lemma m_jsonRegex_no_brace:
  assumes "LBRACE \<notin> set u"
  shows "m jsonRegex (u, cap) = []"
proof -
  have "st \<notin> set (m jsonRegex (u, cap))" for st
  proof
    assume "st \<in> set (m jsonRegex (u, cap))"
    then obtain st1 st2 st3 where
      1: "st1 \<in> set (m (str (js ''```'')) (u, cap))" and
      2: "st2 \<in> set (m (Opt (str (js ''json''))) st1)" and
      3: "st3 \<in> set (m (Star (Cls is_space)) st2)" and
      4: "st \<in> set (m fenced_body st3)"
      by (auto simp: jsonRegex_alt simp del: m.simps(5,8))
    from m_extends [OF 1] m_extends [OF 2] m_extends [OF 3]
    obtain a b c where "u = a @ fst st1" "fst st1 = b @ fst st2" "fst st2 = c @ fst st3"
      by auto
    then have "set (fst st3) \<subseteq> set u" by auto
    with assms have nb: "LBRACE \<notin> set (fst st3)" by blast
    then have "case fst st3 of [] \<Rightarrow> True | x # w \<Rightarrow> x \<noteq> LBRACE"
      by (cases "fst st3") auto
    then have "m fenced_body (fst st3, snd st3) = []"
      by (rule m_body_close_no_brace)
    with 4 show False by simp
  qed
  then show ?thesis by (cases "m jsonRegex (u, cap)") auto
qed

lemma m_jsonRegex_capture:
  assumes "(s', c') \<in> set (m jsonRegex (u, cap))"
  shows "\<exists>w. c' = Some (LBRACE # w)"
proof -
  from assms obtain st3 where 4: "(s', c') \<in> set (m fenced_body st3)"
    by (auto simp: jsonRegex_alt simp del: m.simps(5,8))
  obtain s3 c3 where st3: "st3 = (s3, c3)" by (cases st3)
  show ?thesis
  proof (cases s3)
    case Nil
    with 4 st3 show ?thesis by (simp add: m_body_close_no_brace)
  next
    case (Cons x w)
    show ?thesis
    proof (cases "x = LBRACE")
      case False
      with 4 st3 Cons show ?thesis by (simp add: m_body_close_no_brace)
    next
      case True
      with 4 st3 Cons obtain v where v: "v \<in> set (after_braces w)"
        and c: "c' = Some (take (Suc (length w) - length v) (LBRACE # w))"
        by (auto simp: m_body_close simp del: m.simps split: if_splits)
      from after_braces_shorter [OF v] have "Suc (length w) - length v = Suc (length w - length v)"
        by simp
      with c show ?thesis by simp
    qed
  qed
qed

lemma m_fallbackRegex_capture:
  assumes "(s', c') \<in> set (m fallbackRegex (u, cap))"
  shows "\<exists>w. c' = Some (LBRACE # w)"
proof (cases u)
  case Nil
  with assms show ?thesis by (simp add: m_fallbackRegex)
next
  case (Cons x w)
  show ?thesis
  proof (cases "x = LBRACE")
    case False
    with assms Cons show ?thesis by (simp add: m_fallbackRegex)
  next
    case True
    with assms Cons obtain v where v: "v \<in> set (after_braces w)"
      and c: "c' = Some (take (Suc (length w) - length v) (LBRACE # w))"
      by (auto simp: m_fallbackRegex)
    from after_braces_shorter [OF v] have "Suc (length w) - length v = Suc (length w - length v)"
      by simp
    with c show ?thesis by simp
  qed
qed

lemma group1_Some: "group1 mt = Some c \<Longrightarrow> \<exists>whole. mt = Some (whole, Some c) \<and> c \<noteq> []"
  by (auto simp: group1_def split: option.splits if_splits)

lemma fenced_candidate_brace:
  "group1 (string_match t jsonRegex) = Some c \<Longrightarrow> \<exists>w. c = LBRACE # w"
proof -
  assume "group1 (string_match t jsonRegex) = Some c"
  then obtain whole where "string_match t jsonRegex = Some (whole, Some c)"
    by (auto dest: group1_Some)
  then obtain k s' where "(s', Some c) \<in> set (m jsonRegex (drop k t, None))"
    by (auto dest: string_match_Some)
  then show ?thesis by (auto dest: m_jsonRegex_capture)
qed

lemma fallback_candidate_brace:
  "group1 (string_match t fallbackRegex) = Some c \<Longrightarrow> \<exists>w. c = LBRACE # w"
proof -
  assume "group1 (string_match t fallbackRegex) = Some c"
  then obtain whole where "string_match t fallbackRegex = Some (whole, Some c)"
    by (auto dest: group1_Some)
  then obtain k s' where "(s', Some c) \<in> set (m fallbackRegex (drop k t, None))"
    by (auto dest: string_match_Some)
  then show ?thesis by (auto dest: m_fallbackRegex_capture)
qed

fun find_fence :: "jsstring \<Rightarrow> nat option" where
  "find_fence [] = None"
| "find_fence (c # s) =
     (if take 3 (c # s) = js ''```'' then Some 0 else map_option Suc (find_fence s))"

lemma find_fence_before:
  "find_fence (pre @ s) = Some (length pre) \<Longrightarrow> k < length pre \<Longrightarrow>
   take 3 (drop k (pre @ s)) \<noteq> js ''```''"
proof (induction pre arbitrary: k)
  case Nil
  then show ?case by simp
next
  case (Cons x pre)
  from Cons.prems(1) have nf: "take 3 (x # pre @ s) \<noteq> js ''```''"
    and rest: "find_fence (pre @ s) = Some (length pre)"
    by (auto split: if_splits)
  show ?case
  proof (cases k)
    case 0
    with nf show ?thesis by simp
  next
    case (Suc j)
    with Cons.prems(2) have "j < length pre" by simp
    from Cons.IH [OF rest this] Suc show ?thesis by simp
  qed
qed

lemma string_match_fence:
  assumes tag: "tag = [] \<or> tag = js ''json''"
    and ws1: "\<forall>c\<in>set ws1. is_space c"
    and ws2: "\<forall>c\<in>set ws2. is_space c"
    and early: "\<not> early_close (LBRACE # mid @ [RBRACE])"
    and first: "find_fence (pre @ js ''```'' @ tag @ ws1 @ LBRACE # mid @ RBRACE # ws2 @ js ''```'' @ post)
                  = Some (length pre)"
  shows "group1 (string_match
           (pre @ js ''```'' @ tag @ ws1 @ LBRACE # mid @ RBRACE # ws2 @ js ''```'' @ post) jsonRegex)
         = Some (LBRACE # mid @ [RBRACE])"
proof -
  let ?f = "js ''```'' @ tag @ ws1 @ LBRACE # mid @ RBRACE # ws2 @ js ''```'' @ post"
  have "m jsonRegex (drop k (pre @ ?f), None) = []" if "k < length pre" for k
    using find_fence_before [OF first that] by (simp add: m_jsonRegex del: m.simps)
  then have "string_match (pre @ ?f) jsonRegex = string_match ?f jsonRegex"
    by (rule string_match_skip)
  moreover from m_jsonRegex_fence [OF tag ws1 ws2 early, of post] obtain rest where
    "m jsonRegex (?f, None) = (post, Some (LBRACE # mid @ [RBRACE])) # rest"
    by blast
  then have "\<exists>whole. string_match ?f jsonRegex = Some (whole, Some (LBRACE # mid @ [RBRACE]))"
    by (simp add: string_match_here)
  ultimately show ?thesis
    by (auto simp: group1_def)
qed

lemma string_match_no_brace:
  assumes "LBRACE \<notin> set t"
  shows "string_match t jsonRegex = None" and "string_match t fallbackRegex = None"
proof -
  have "LBRACE \<notin> set (drop k t)" for k
    using assms by (auto dest: in_set_dropD)
  then have "m jsonRegex (drop k t, None) = []" for k
    by (rule m_jsonRegex_no_brace)
  then show "string_match t jsonRegex = None"
    by (simp add: string_match_None)
  from assms have "m fallbackRegex (drop k t, None) = []" for k
    by (rule m_fallbackRegex_no_brace)
  then show "string_match t fallbackRegex = None"
    by (simp add: string_match_None)
qed

lemma parse_members_object:
  "parse_members s acc = Some (v, r) \<Longrightarrow> \<exists>kvs. v = JObject kvs"
proof (induction "length s" arbitrary: s acc rule: less_induct)
  case less
  from less.prems show ?case
    by (subst (asm) parse_members.simps)
       (auto split: list.splits if_splits option.splits prod.splits dest: less.hyps)
qed

lemma lbrace_not_json_ws: "\<not> is_json_ws LBRACE"
  by (simp add: is_json_ws_def)

lemma parse_value_brace:
  "parse_value (LBRACE # w) = Some (v, r) \<Longrightarrow> \<exists>kvs. v = JObject kvs"
  by (subst (asm) parse_value.simps)
     (auto simp: skip_ws_def lbrace_not_json_ws split: list.splits if_splits
           dest: parse_members_object)

lemma JSON_parse_brace:
  "JSON_parse (LBRACE # w) = Inr v \<Longrightarrow> \<exists>kvs. v = JObject kvs"
  by (auto simp: JSON_parse_def split: option.splits if_splits dest: parse_value_brace)

section \<open>The three ways through \<^verbatim>\<open>extractJson\<close>\<close>

lemma extractJson_fenced:
  assumes "group1 (string_match text jsonRegex) = Some c"
  shows "extractJson text w =
    (case JSON_parse c of
       Inl e \<Rightarrow> (Inr JNull, console_error (js ''Error extracting JSON:'') e w)
     | Inr v \<Rightarrow> (Inr v, w))"
  using assms
  by (simp add: extractJson_def extractJson_body_def try_catch_def completion_def throw_def
      return_val_def split: sum.splits)

lemma extractJson_fallback:
  assumes "group1 (string_match text jsonRegex) = None"
    and "group1 (string_match text fallbackRegex) = Some c"
  shows "extractJson text w =
    (case JSON_parse c of Inl e \<Rightarrow> (Inr JNull, w) | Inr v \<Rightarrow> (Inr v, w))"
  using assms
  by (simp add: extractJson_def extractJson_body_def try_catch_def completion_def throw_def
      return_val_def split: sum.splits)

lemma extractJson_no_candidate:
  assumes "group1 (string_match text jsonRegex) = None"
    and "group1 (string_match text fallbackRegex) = None"
  shows "extractJson text w = (Inr JNull, w)"
  using assms
  by (simp add: extractJson_def extractJson_body_def try_catch_def return_val_def)

lemmas extractJson_defs =
  extractJson_def extractJson_body_def try_catch_def completion_def throw_def return_val_def

section \<open>Evaluation on concrete texts\<close>

lemmas eval_simps =
  js_def cu_def is_space_def jsonRegex_def fallbackRegex_def seqs_def str_def m.simps
  extractJson_def extractJson_body_def group1_def completion_def return_val_def throw_def
  try_catch_def console_error_def JSON_parse_def parse_value.simps parse_elements.simps
  parse_members.simps skip_ws_def is_json_ws_def parse_number_def parse_frac_def parse_exp_def
  is_digit_def digit_val_def digits_val_def number_value_def escape_def hex_val_def Let_def
  closes_fence_def early_close_def

text \<open>
  The values that are neither an object nor \<^verbatim>\<open>null\<close>: arrays, strings, numbers and
  booleans.
\<close>

fun bare_value :: "json \<Rightarrow> bool" where
  "bare_value (JArray xs) = True"
| "bare_value (JString s) = True"
| "bare_value (JNumber n) = True"
| "bare_value (JBool b) = True"
| "bare_value JNull = False"
| "bare_value (JObject kvs) = False"

section \<open>The claims\<close>

text \<open>
  C1, as the code has it. When the fenced pattern captures a body that \<^verbatim>\<open>JSON.parse\<close>
  refuses, the exception leaves the body of the outer \<^verbatim>\<open>try\<close> and is caught by its
  \<^verbatim>\<open>catch\<close>: \<^verbatim>\<open>extractJson\<close> writes the error to the console and returns \<^verbatim>\<open>null\<close>
  normally. Nothing is thrown to the caller and the fallback search is not made.
\<close>

theorem fenced_parse_error_is_caught:
  assumes "group1 (string_match t jsonRegex) = Some jsonString"
    and "JSON_parse jsonString = Inl e"
  shows "extractJson t w = (Inr JNull, console_error (js ''Error extracting JSON:'') e w)"
  using assms by (simp add: extractJson_fenced)

theorem fenced_parse_error_is_caught_witness:
  "group1 (string_match (js ''```'' @ [NEWLINE] @ js ''{oops}'' @ [NEWLINE] @ js ''```'') jsonRegex)
     = Some (js ''{oops}'') \<and>
   JSON_parse (js ''{oops}'') = Inl SyntaxError \<and>
   extractJson (js ''```'' @ [NEWLINE] @ js ''{oops}'' @ [NEWLINE] @ js ''```'') \<lparr>console = []\<rparr>
     = (Inr JNull, \<lparr>console = [(js ''Error extracting JSON:'', SyntaxError)]\<rparr>)"
proof -
  have a: "group1 (string_match (js ''```'' @ [NEWLINE] @ js ''{oops}'' @ [NEWLINE] @ js ''```'') jsonRegex)
     = Some (js ''{oops}'')"
    by (simp add: eval_simps)
  have b: "JSON_parse (js ''{oops}'') = Inl SyntaxError"
    by (simp add: eval_simps)
  from fenced_parse_error_is_caught [OF a b, of "\<lparr>console = []\<rparr>"] a b show ?thesis
    by (simp add: console_error_def)
qed

text \<open>
  C1 as stated fails on the spec's own example: for the text
  \<^verbatim>\<open>```json\n{a:1}\n```\<close> the fenced body \<^verbatim>\<open>{a:1}\<close> is refused by \<^verbatim>\<open>JSON.parse\<close>, and
  \<^verbatim>\<open>extractJson\<close> returns \<^verbatim>\<open>null\<close> instead of throwing.
\<close>

theorem fenced_parse_error_thrown_counterexample:
  "group1 (string_match (js ''```json'' @ [NEWLINE] @ js ''{a:1}'' @ [NEWLINE] @ js ''```'') jsonRegex)
     = Some (js ''{a:1}'') \<and>
   JSON_parse (js ''{a:1}'') = Inl SyntaxError \<and>
   fst (extractJson (js ''```json'' @ [NEWLINE] @ js ''{a:1}'' @ [NEWLINE] @ js ''```'')
          \<lparr>console = []\<rparr>) = Inr JNull"
  by (simp add: eval_simps)

text \<open>
  C2. For every text and every state of the console, \<^verbatim>\<open>extractJson\<close> completes normally:
  it returns \<^verbatim>\<open>null\<close> or a value that \<^verbatim>\<open>JSON.parse\<close> produced, and never throws.
\<close>

theorem extractJson_total:
  "\<exists>v w'. extractJson t w = (Inr v, w') \<and> (v = JNull \<or> (\<exists>s. JSON_parse s = Inr v))"
proof (cases "group1 (string_match t jsonRegex)")
  case None
  note fenced = this
  show ?thesis
  proof (cases "group1 (string_match t fallbackRegex)")
    case None
    with fenced show ?thesis by (simp add: extractJson_no_candidate)
  next
    case (Some c)
    from extractJson_fallback [OF fenced Some] show ?thesis
      by (cases "JSON_parse c") auto
  qed
next
  case (Some c)
  from extractJson_fenced [OF Some] show ?thesis
    by (cases "JSON_parse c") auto
qed

text \<open>
  C3, as the code has it. Let \<open>s\<close> be a serialization of the object \<open>J\<close>: a string from
  \<^verbatim>\<open>{\<close> to \<^verbatim>\<open>}\<close> that \<^verbatim>\<open>JSON.parse\<close> maps to \<open>J\<close>. If no \<^verbatim>\<open>}\<close> of \<open>s\<close> other than the last
  is followed by optional white space and three backticks, then \<^verbatim>\<open>extractJson\<close> of
  \<^verbatim>\<open>"```json\n" + s + "\n```"\<close> returns \<open>J\<close> and leaves the console alone.
\<close>

theorem fenced_round_trip:
  assumes "JSON_parse (LBRACE # mid @ [RBRACE]) = Inr J"
    and "\<not> early_close (LBRACE # mid @ [RBRACE])"
  shows "extractJson (js ''```json'' @ [NEWLINE] @ (LBRACE # mid @ [RBRACE]) @ [NEWLINE] @ js ''```'') w
           = (Inr J, w)"
proof -
  let ?t = "js ''```json'' @ [NEWLINE] @ (LBRACE # mid @ [RBRACE]) @ [NEWLINE] @ js ''```''"
  have shape: "?t = [] @ js ''```'' @ js ''json'' @ [NEWLINE] @ LBRACE # mid @ RBRACE # [NEWLINE]
                    @ js ''```'' @ []"
    by (simp add: js_def)
  have first: "find_fence ([] @ js ''```'' @ js ''json'' @ [NEWLINE] @ LBRACE # mid @ RBRACE # [NEWLINE]
                    @ js ''```'' @ []) = Some (length ([] :: jsstring))"
    by (simp add: js_def)
  have sp: "\<forall>c\<in>set [NEWLINE]. is_space c"
    by (simp add: is_space_def)
  have "group1 (string_match ?t jsonRegex) = Some (LBRACE # mid @ [RBRACE])"
    unfolding shape
    by (rule string_match_fence [OF _ sp sp assms(2) first]) simp
  from extractJson_fenced [OF this] assms(1) show ?thesis by simp
qed

theorem fenced_round_trip_witness:
  "JSON_parse (LBRACE # js ''\"a\":{\"b\":[1,2]}'' @ [RBRACE])
     = Inr (JObject [(js ''a'', JObject [(js ''b'', JArray [JNumber 1, JNumber 2])])]) \<and>
   \<not> early_close (LBRACE # js ''\"a\":{\"b\":[1,2]}'' @ [RBRACE]) \<and>
   extractJson (js ''```json'' @ [NEWLINE] @ (LBRACE # js ''\"a\":{\"b\":[1,2]}'' @ [RBRACE]) @ [NEWLINE]
                @ js ''```'') \<lparr>console = []\<rparr>
     = (Inr (JObject [(js ''a'', JObject [(js ''b'', JArray [JNumber 1, JNumber 2])])]),
        \<lparr>console = []\<rparr>)"
proof -
  have a: "JSON_parse (LBRACE # js ''\"a\":{\"b\":[1,2]}'' @ [RBRACE])
     = Inr (JObject [(js ''a'', JObject [(js ''b'', JArray [JNumber 1, JNumber 2])])])"
    by (simp add: eval_simps)
  have b: "\<not> early_close (LBRACE # js ''\"a\":{\"b\":[1,2]}'' @ [RBRACE])"
    by (simp add: eval_simps)
  from fenced_round_trip [OF a b, of "\<lparr>console = []\<rparr>"] a b show ?thesis
    by simp
qed

text \<open>
  C3 as stated fails for the object \<^verbatim>\<open>{"a":"}```"}\<close>: its serialization holds a \<^verbatim>\<open>}\<close>
  followed by three backticks inside the string, the lazy pattern stops there, the
  captured \<^verbatim>\<open>{"a":"}\<close> is refused by \<^verbatim>\<open>JSON.parse\<close>, and the result is \<^verbatim>\<open>null\<close>.
\<close>

theorem fenced_round_trip_counterexample:
  "JSON_parse (js ''{\"a\":\"}```\"}'') = Inr (JObject [(js ''a'', JString (js ''}```''))]) \<and>
   group1 (string_match (js ''```json'' @ [NEWLINE] @ js ''{\"a\":\"}```\"}'' @ [NEWLINE] @ js ''```'')
             jsonRegex) = Some (js ''{\"a\":\"}'') \<and>
   fst (extractJson (js ''```json'' @ [NEWLINE] @ js ''{\"a\":\"}```\"}'' @ [NEWLINE] @ js ''```'')
          \<lparr>console = []\<rparr>) = Inr JNull"
  by (simp add: eval_simps)

text \<open>
  C4, as the code has it. Let the text be a prefix, an opening fence \<^verbatim>\<open>```\<close> with or
  without the tag \<^verbatim>\<open>json\<close>, white space, a body from \<^verbatim>\<open>{\<close> to \<^verbatim>\<open>}\<close> that \<^verbatim>\<open>JSON.parse\<close>
  maps to \<open>J\<close>, white space, a closing fence \<^verbatim>\<open>```\<close> and any suffix. If the opening fence is
  the first run of three backticks of the text, and no \<^verbatim>\<open>}\<close> of the body other than the
  last is followed by optional white space and three backticks, then \<^verbatim>\<open>extractJson\<close>
  returns \<open>J\<close>.
\<close>

theorem single_fenced_block:
  assumes "tag = [] \<or> tag = js ''json''"
    and "\<forall>c\<in>set ws1. is_space c"
    and "\<forall>c\<in>set ws2. is_space c"
    and "JSON_parse (LBRACE # mid @ [RBRACE]) = Inr J"
    and "\<not> early_close (LBRACE # mid @ [RBRACE])"
    and "t = pre @ js ''```'' @ tag @ ws1 @ (LBRACE # mid @ [RBRACE]) @ ws2 @ js ''```'' @ post"
    and "find_fence t = Some (length pre)"
  shows "extractJson t w = (Inr J, w)"
proof -
  from assms(6) have shape:
    "t = pre @ js ''```'' @ tag @ ws1 @ LBRACE # mid @ RBRACE # ws2 @ js ''```'' @ post"
    by simp
  from assms(7) have first:
    "find_fence (pre @ js ''```'' @ tag @ ws1 @ LBRACE # mid @ RBRACE # ws2 @ js ''```'' @ post)
       = Some (length pre)"
    unfolding shape .
  have "group1 (string_match t jsonRegex) = Some (LBRACE # mid @ [RBRACE])"
    unfolding shape
    by (rule string_match_fence [OF assms(1) assms(2) assms(3) assms(5) first])
  from extractJson_fenced [OF this] assms(4) show ?thesis by simp
qed

theorem single_fenced_block_witness:
  "is_space NEWLINE \<and> is_space 0x20 \<and>
   JSON_parse (LBRACE # js ''\"ok\":true'' @ [RBRACE]) = Inr (JObject [(js ''ok'', JBool True)]) \<and>
   \<not> early_close (LBRACE # js ''\"ok\":true'' @ [RBRACE]) \<and>
   find_fence (js ''Here: '' @ js ''```'' @ [] @ [NEWLINE] @ (LBRACE # js ''\"ok\":true'' @ [RBRACE])
               @ [0x20, NEWLINE] @ js ''```'' @ js '' bye'') = Some (length (js ''Here: '')) \<and>
   extractJson (js ''Here: '' @ js ''```'' @ [] @ [NEWLINE] @ (LBRACE # js ''\"ok\":true'' @ [RBRACE])
               @ [0x20, NEWLINE] @ js ''```'' @ js '' bye'') \<lparr>console = []\<rparr>
     = (Inr (JObject [(js ''ok'', JBool True)]), \<lparr>console = []\<rparr>)"
proof -
  have a: "[] = ([] :: jsstring) \<or> [] = js ''json''" by simp
  have b: "\<forall>c\<in>set [NEWLINE]. is_space c" by (simp add: is_space_def)
  have c: "\<forall>c\<in>set [0x20, NEWLINE]. is_space c" by (simp add: is_space_def)
  have d: "JSON_parse (LBRACE # js ''\"ok\":true'' @ [RBRACE]) = Inr (JObject [(js ''ok'', JBool True)])"
    by (simp add: eval_simps)
  have e: "\<not> early_close (LBRACE # js ''\"ok\":true'' @ [RBRACE])"
    by (simp add: eval_simps)
  have f: "find_fence (js ''Here: '' @ js ''```'' @ [] @ [NEWLINE] @ (LBRACE # js ''\"ok\":true'' @ [RBRACE])
               @ [0x20, NEWLINE] @ js ''```'' @ js '' bye'') = Some (length (js ''Here: ''))"
    by (simp add: js_def cu_def)
  have g: "is_space NEWLINE \<and> is_space 0x20" by (simp add: is_space_def)
  from single_fenced_block [OF a b c d e refl f, of "\<lparr>console = []\<rparr>"] d e f g
  show ?thesis by simp
qed

text \<open>
  C4 as stated fails for the text \<^verbatim>\<open>Result: ```json\n{"k":"} ```"}\n``` done\<close>. Its one
  fenced block holds the valid object \<^verbatim>\<open>{"k":"} ```"}\<close>, but the lazy pattern stops at the
  \<^verbatim>\<open>}\<close> inside the string, and the result is \<^verbatim>\<open>null\<close>.
\<close>

theorem single_fenced_block_counterexample:
  "JSON_parse (js ''{\"k\":\"} ```\"}'') = Inr (JObject [(js ''k'', JString (js ''} ```''))]) \<and>
   fst (extractJson (js ''Result: '' @ js ''```json'' @ [NEWLINE] @ js ''{\"k\":\"} ```\"}'' @ [NEWLINE]
                     @ js ''```'' @ js '' done'') \<lparr>console = []\<rparr>) = Inr JNull"
  by (simp add: eval_simps)

text \<open>
  C5. When the fenced pattern does not match, and the text has an opening brace with a
  closing brace after it, \<^verbatim>\<open>extractJson\<close> parses the span from the first \<^verbatim>\<open>{\<close> to the last
  \<^verbatim>\<open>}\<close> of the whole text: it returns the parsed value, or \<^verbatim>\<open>null\<close> when the span is not
  JSON. The witness is the text \<^verbatim>\<open>prefix {"a":1} suffix\<close>, which gives \<^verbatim>\<open>{"a": 1}\<close>.
\<close>

theorem fallback_first_to_last_brace:
  assumes "string_match t jsonRegex = None"
    and "t = pre @ (LBRACE # mid @ [RBRACE]) @ post"
    and "LBRACE \<notin> set pre"
    and "RBRACE \<notin> set post"
  shows "extractJson t w =
           (case JSON_parse (LBRACE # mid @ [RBRACE]) of
              Inl e \<Rightarrow> (Inr JNull, w)
            | Inr v \<Rightarrow> (Inr v, w))"
proof -
  from assms(1) have fenced: "group1 (string_match t jsonRegex) = None"
    by (simp add: group1_def)
  from assms(2) have shape: "t = pre @ LBRACE # mid @ RBRACE # post" by simp
  have "group1 (string_match t fallbackRegex) = Some (LBRACE # mid @ [RBRACE])"
    unfolding shape
    by (simp add: string_match_fallback_span [OF assms(3) assms(4)] group1_def)
  from extractJson_fallback [OF fenced this] show ?thesis .
qed

theorem fallback_first_to_last_brace_witness:
  "string_match (js ''prefix '' @ (LBRACE # js ''\"a\":1'' @ [RBRACE]) @ js '' suffix'') jsonRegex = None \<and>
   LBRACE \<notin> set (js ''prefix '') \<and>
   RBRACE \<notin> set (js '' suffix'') \<and>
   js ''prefix {\"a\":1} suffix'' = js ''prefix '' @ (LBRACE # js ''\"a\":1'' @ [RBRACE]) @ js '' suffix'' \<and>
   extractJson (js ''prefix '' @ (LBRACE # js ''\"a\":1'' @ [RBRACE]) @ js '' suffix'') \<lparr>console = []\<rparr>
     = (Inr (JObject [(js ''a'', JNumber 1)]), \<lparr>console = []\<rparr>)"
proof -
  have a: "string_match (js ''prefix '' @ (LBRACE # js ''\"a\":1'' @ [RBRACE]) @ js '' suffix'') jsonRegex
             = None"
    by (simp add: eval_simps)
  have b: "LBRACE \<notin> set (js ''prefix '')" by (simp add: js_def cu_def)
  have c: "RBRACE \<notin> set (js '' suffix'')" by (simp add: js_def cu_def)
  have d: "js ''prefix {\"a\":1} suffix'' = js ''prefix '' @ (LBRACE # js ''\"a\":1'' @ [RBRACE]) @ js '' suffix''"
    by (simp add: js_def cu_def)
  have e: "JSON_parse (LBRACE # js ''\"a\":1'' @ [RBRACE]) = Inr (JObject [(js ''a'', JNumber 1)])"
    by (simp add: eval_simps)
  from fallback_first_to_last_brace [OF a refl b c, of "\<lparr>console = []\<rparr>"] a b c d e
  show ?thesis by simp
qed

text \<open>
  C6. When the fenced pattern yields no candidate and the candidate of the fallback
  pattern is refused by \<^verbatim>\<open>JSON.parse\<close>, the inner \<^verbatim>\<open>catch\<close> swallows the error:
  \<^verbatim>\<open>extractJson\<close> returns \<^verbatim>\<open>null\<close>, throws nothing and writes nothing to the console. The
  witness is the text \<^verbatim>\<open>{a:1} and {"b":2}\<close>, whose candidate is the whole text.
\<close>

theorem fallback_parse_error_swallowed:
  assumes "group1 (string_match t jsonRegex) = None"
    and "group1 (string_match t fallbackRegex) = Some candidate"
    and "JSON_parse candidate = Inl e"
  shows "extractJson t w = (Inr JNull, w)"
  using extractJson_fallback [OF assms(1) assms(2)] assms(3) by simp

theorem fallback_parse_error_swallowed_witness:
  "group1 (string_match (js ''{a:1} and {\"b\":2}'') jsonRegex) = None \<and>
   group1 (string_match (js ''{a:1} and {\"b\":2}'') fallbackRegex) = Some (js ''{a:1} and {\"b\":2}'') \<and>
   JSON_parse (js ''{a:1} and {\"b\":2}'') = Inl SyntaxError \<and>
   extractJson (js ''{a:1} and {\"b\":2}'') \<lparr>console = []\<rparr> = (Inr JNull, \<lparr>console = []\<rparr>)"
proof -
  have a: "group1 (string_match (js ''{a:1} and {\"b\":2}'') jsonRegex) = None"
    by (simp add: eval_simps)
  have b: "group1 (string_match (js ''{a:1} and {\"b\":2}'') fallbackRegex)
             = Some (js ''{a:1} and {\"b\":2}'')"
    by (simp add: eval_simps)
  have c: "JSON_parse (js ''{a:1} and {\"b\":2}'') = Inl SyntaxError"
    by (simp add: eval_simps)
  from fallback_parse_error_swallowed [OF a b c, of "\<lparr>console = []\<rparr>"] a b c
  show ?thesis by simp
qed

text \<open>
  C7. When the fenced pattern captures a body that \<^verbatim>\<open>JSON.parse\<close> refuses, the result is
  \<^verbatim>\<open>null\<close> whatever the fallback pattern would have found: if its candidate parses to a
  value, that value is not returned. The witness is the text \<^verbatim>\<open>{"x":"```{a}```"}\<close>, which
  is a valid object as a whole and whose fenced body \<^verbatim>\<open>{a}\<close> is not.
\<close>

theorem fenced_parse_error_skips_fallback:
  assumes "group1 (string_match t jsonRegex) = Some jsonString"
    and "JSON_parse jsonString = Inl e"
  shows "fst (extractJson t w) = Inr JNull \<and>
         (\<forall>candidate v. group1 (string_match t fallbackRegex) = Some candidate \<longrightarrow>
                        JSON_parse candidate = Inr v \<longrightarrow> fst (extractJson t w) \<noteq> Inr v)"
proof -
  from extractJson_fenced [OF assms(1)] assms(2) have r: "fst (extractJson t w) = Inr JNull"
    by simp
  have "v \<noteq> JNull"
    if "group1 (string_match t fallbackRegex) = Some candidate" "JSON_parse candidate = Inr v"
    for candidate v
  proof -
    from fallback_candidate_brace [OF that(1)] obtain b where "candidate = LBRACE # b" by blast
    with that(2) JSON_parse_brace [of b v] show ?thesis by auto
  qed
  with r show ?thesis by auto
qed

theorem fenced_parse_error_skips_fallback_witness:
  "group1 (string_match (js ''{\"x\":\"```{a}```\"}'') jsonRegex) = Some (js ''{a}'') \<and>
   JSON_parse (js ''{a}'') = Inl SyntaxError \<and>
   group1 (string_match (js ''{\"x\":\"```{a}```\"}'') fallbackRegex) = Some (js ''{\"x\":\"```{a}```\"}'') \<and>
   JSON_parse (js ''{\"x\":\"```{a}```\"}'') = Inr (JObject [(js ''x'', JString (js ''```{a}```''))]) \<and>
   fst (extractJson (js ''{\"x\":\"```{a}```\"}'') \<lparr>console = []\<rparr>) = Inr JNull \<and>
   fst (extractJson (js ''{\"x\":\"```{a}```\"}'') \<lparr>console = []\<rparr>)
     \<noteq> Inr (JObject [(js ''x'', JString (js ''```{a}```''))])"
proof -
  have a: "group1 (string_match (js ''{\"x\":\"```{a}```\"}'') jsonRegex) = Some (js ''{a}'')"
    by (simp add: eval_simps)
  have b: "JSON_parse (js ''{a}'') = Inl SyntaxError"
    by (simp add: eval_simps)
  have c: "group1 (string_match (js ''{\"x\":\"```{a}```\"}'') fallbackRegex)
             = Some (js ''{\"x\":\"```{a}```\"}'')"
    by (simp add: eval_simps)
  have d: "JSON_parse (js ''{\"x\":\"```{a}```\"}'')
             = Inr (JObject [(js ''x'', JString (js ''```{a}```''))])"
    by (simp add: eval_simps)
  from fenced_parse_error_skips_fallback [OF a b, of "\<lparr>console = []\<rparr>"] a b c d
  show ?thesis by blast
qed

text \<open>
  C8. A text without any brace has no candidate under either pattern, and
  \<^verbatim>\<open>extractJson\<close> returns \<^verbatim>\<open>null\<close> without touching the console.
\<close>

theorem no_braces_absent:
  assumes "LBRACE \<notin> set t" and "RBRACE \<notin> set t"
  shows "extractJson t w = (Inr JNull, w)"
proof -
  from string_match_no_brace [OF assms(1)]
  have "group1 (string_match t jsonRegex) = None" "group1 (string_match t fallbackRegex) = None"
    by (simp_all add: group1_def)
  then show ?thesis by (rule extractJson_no_candidate)
qed

theorem no_braces_absent_witness:
  "LBRACE \<notin> set (js ''no json here: [1, 2]'') \<and>
   RBRACE \<notin> set (js ''no json here: [1, 2]'') \<and>
   extractJson (js ''no json here: [1, 2]'') \<lparr>console = []\<rparr> = (Inr JNull, \<lparr>console = []\<rparr>)"
proof -
  have a: "LBRACE \<notin> set (js ''no json here: [1, 2]'')" by (simp add: js_def cu_def)
  have b: "RBRACE \<notin> set (js ''no json here: [1, 2]'')" by (simp add: js_def cu_def)
  from no_braces_absent [OF a b, of "\<lparr>console = []\<rparr>"] a b show ?thesis by simp
qed

text \<open>
  C9. \<^verbatim>\<open>extractJson\<close> never returns an array, a string, a number or a boolean: every
  candidate of either pattern begins with \<^verbatim>\<open>{\<close>, so whatever \<^verbatim>\<open>JSON.parse\<close> makes of it is
  an object. In particular a text that is a bare value is not answered with that value.
\<close>

theorem bare_value_not_extracted:
  assumes "bare_value v"
  shows "fst (extractJson t w) \<noteq> Inr v"
proof
  assume r: "fst (extractJson t w) = Inr v"
  have obj: "\<exists>kvs. x = JObject kvs"
    if "JSON_parse c = Inr x" "\<exists>b. c = LBRACE # b" for c x
    using that JSON_parse_brace by blast
  have "v = JNull \<or> (\<exists>kvs. v = JObject kvs)"
  proof (cases "group1 (string_match t jsonRegex)")
    case None
    note fenced = this
    show ?thesis
    proof (cases "group1 (string_match t fallbackRegex)")
      case None
      with fenced r show ?thesis by (simp add: extractJson_no_candidate)
    next
      case (Some c)
      from extractJson_fallback [OF fenced Some, of w] r obj [OF _ fallback_candidate_brace [OF Some]]
      show ?thesis by (cases "JSON_parse c") auto
    qed
  next
    case (Some c)
    from extractJson_fenced [OF Some, of w] r obj [OF _ fenced_candidate_brace [OF Some]]
    show ?thesis by (cases "JSON_parse c") auto
  qed
  with assms show False by auto
qed

theorem bare_value_not_extracted_witness:
  "bare_value (JArray [JNumber 1, JString (js ''two'')]) \<and>
   JSON_parse (js ''[1, \"two\"]'') = Inr (JArray [JNumber 1, JString (js ''two'')]) \<and>
   fst (extractJson (js ''[1, \"two\"]'') \<lparr>console = []\<rparr>)
     \<noteq> Inr (JArray [JNumber 1, JString (js ''two'')])"
proof -
  have a: "bare_value (JArray [JNumber 1, JString (js ''two'')])" by simp
  have b: "JSON_parse (js ''[1, \"two\"]'') = Inr (JArray [JNumber 1, JString (js ''two'')])"
    by (simp add: eval_simps)
  from bare_value_not_extracted [OF a, of "js ''[1, \"two\"]''" "\<lparr>console = []\<rparr>"] a b
  show ?thesis by simp
qed

text \<open>
  C10. The value \<^verbatim>\<open>extractJson\<close> returns depends on the text alone: whatever the state in
  which it is called, and so whatever calls came before, the result is the same.
\<close>

theorem extractJson_stateless:
  "fst (extractJson t w1) = fst (extractJson t w2)"
  by (simp add: extractJson_defs Let_def split: option.splits sum.splits)

end
